theory Spec2Isabelle
  imports Main "HOL-Library.AList"
begin

section \<open>The undirected graph of graph.py\<close>

text \<open>
  The class \<^verbatim>\<open>Graph\<close> of \<^verbatim>\<open>graph.py\<close> has two attributes:
  \<^verbatim>\<open>adjacency_dict\<close>, a \<^verbatim>\<open>defaultdict(set)\<close> from node ids to sets of node ids, and
  \<^verbatim>\<open>all_nodes\<close>, a list of node ids. Node ids are Python integers, hence \<open>int\<close>.

  A Python dict keeps its keys in insertion order, and \<^verbatim>\<open>update_all_nodes\<close> reads that
  order, so the dict is an association list in insertion order. A Python set has an
  iteration order that the language does not fix, and \<^verbatim>\<open>bfs\<close> iterates over neighbour
  sets; a set is therefore a list of its elements in some order, and every statement
  about a graph ranges over all such orders. Membership and equality of sets go through
  \<open>set\<close>, so they do not see the order.
\<close>

subsection \<open>Exceptions\<close>

text \<open>
  The exceptions the code can raise: \<^verbatim>\<open>ValueError\<close> by the three \<^verbatim>\<open>raise\<close> statements
  for a node that is not in the graph, \<^verbatim>\<open>StopIteration\<close> by \<^verbatim>\<open>__next__\<close>, and
  \<^verbatim>\<open>IndexError\<close> by \<^verbatim>\<open>[0]\<close> on an empty list and by \<^verbatim>\<open>popleft\<close> on an empty deque.
  A method that can raise returns a pair: what it returned or raised, and the graph
  it leaves behind, since the methods mutate the object.
\<close>

datatype error = ValueError | IndexError | StopIteration

subsection \<open>Sets and the defaultdict\<close>

type_synonym adjacency = "(int \<times> int list) list"

text \<open>\<^verbatim>\<open>s.add(x)\<close>\<close>

definition set_add :: "int \<Rightarrow> int list \<Rightarrow> int list" where
  "set_add x s = (if x \<in> set s then s else s @ [x])"

text \<open>\<^verbatim>\<open>k in d\<close>: a membership test never inserts a key.\<close>

definition dict_contains :: "adjacency \<Rightarrow> int \<Rightarrow> bool" where
  "dict_contains d k = (k \<in> set (map fst d))"

text \<open>
  \<^verbatim>\<open>d[k]\<close> on a \<^verbatim>\<open>defaultdict(set)\<close>: a missing key is inserted with an empty set,
  at the end of the key order, and that empty set is the value read. The dict after the
  read is returned with the value.
\<close>

definition dict_getitem :: "adjacency \<Rightarrow> int \<Rightarrow> int list \<times> adjacency" where
  "dict_getitem d k =
     (case map_of d k of
        Some s \<Rightarrow> (s, d)
      | None \<Rightarrow> ([], d @ [(k, [])]))"

text \<open>\<^verbatim>\<open>d[k] = s\<close>: an existing key keeps its place, a new key goes to the end.\<close>

definition dict_setitem :: "adjacency \<Rightarrow> int \<Rightarrow> int list \<Rightarrow> adjacency" where
  "dict_setitem d k s = AList.update k s d"

text \<open>
  \<^verbatim>\<open>d1 == d2\<close> on dicts of sets: the same keys, and at each key equal sets. The order
  of the keys plays no part.
\<close>

definition dict_eq :: "adjacency \<Rightarrow> adjacency \<Rightarrow> bool" where
  "dict_eq d1 d2 =
     (set (map fst d1) = set (map fst d2) \<and>
      list_all (\<lambda>k. map_option set (map_of d1 k) = map_option set (map_of d2 k)) (map fst d1))"

subsection \<open>The graph and its mutators\<close>

record graph =
  adjacency_dict :: adjacency
  all_nodes :: "int list"

text \<open>The state of \<^verbatim>\<open>__init__\<close> before any edge is added.\<close>

definition empty_graph :: graph where
  "empty_graph = \<lparr>adjacency_dict = [], all_nodes = []\<rparr>"

definition update_all_nodes :: "graph \<Rightarrow> graph" where
  "update_all_nodes g = g\<lparr>all_nodes := map fst (adjacency_dict g)\<rparr>"

text \<open>\<^verbatim>\<open>__contains__\<close>\<close>

definition graph_contains :: "graph \<Rightarrow> int \<Rightarrow> bool" where
  "graph_contains g node = dict_contains (adjacency_dict g) node"

text \<open>
  \<^verbatim>\<open>is_edge_in_graph\<close>: the \<^verbatim>\<open>and\<close> evaluates \<^verbatim>\<open>self.adjacency_dict[edge[0]]\<close> only
  when the key is there. The graph after the call is returned with the answer.
\<close>

fun is_edge_in_graph :: "graph \<Rightarrow> int \<times> int \<Rightarrow> bool \<times> graph" where
  "is_edge_in_graph g (u, v) =
     (if dict_contains (adjacency_dict g) u
      then (let (s, d') = dict_getitem (adjacency_dict g) u
            in (v \<in> set s, g\<lparr>adjacency_dict := d'\<rparr>))
      else (False, g))"

text \<open>
  \<^verbatim>\<open>add_edge\<close>: \<^verbatim>\<open>self.adjacency_dict[edge[0]].add(edge[1])\<close> reads the set through the
  defaultdict, adds to it, and the dict holds the enlarged set.
\<close>

fun add_edge :: "graph \<Rightarrow> int \<times> int \<Rightarrow> graph" where
  "add_edge g (u, v) =
     (let (present, g1) = is_edge_in_graph g (u, v)
      in if present then g1
         else
           (let (s0, d1) = dict_getitem (adjacency_dict g1) u;
                d2 = dict_setitem d1 u (set_add v s0);
                (s1, d3) = dict_getitem d2 v;
                d4 = dict_setitem d3 v (set_add u s1)
            in update_all_nodes (g1\<lparr>adjacency_dict := d4\<rparr>)))"

definition add_node :: "graph \<Rightarrow> int \<Rightarrow> graph" where
  "add_node g new_node =
     (if graph_contains g new_node then g
      else update_all_nodes
             (g\<lparr>adjacency_dict := dict_setitem (adjacency_dict g) new_node []\<rparr>))"

text \<open>
  \<^verbatim>\<open>__init__\<close>: \<^verbatim>\<open>if not edges: return\<close> leaves the empty graph for an empty (or
  absent) edge list; otherwise the edges are added in order. The docstring gives every
  edge the format \<^verbatim>\<open>(u,v)\<close>, so an edge is a pair of node ids.
\<close>

definition graph_init :: "(int \<times> int) list \<Rightarrow> graph" where
  "graph_init edges =
     (if edges = [] then empty_graph
      else update_all_nodes (foldl add_edge empty_graph edges))"

subsection \<open>Queries\<close>

text \<open>\<^verbatim>\<open>__getitem__\<close>: the neighbours of a node, as a copy of the stored set.\<close>

definition graph_getitem :: "graph \<Rightarrow> int \<Rightarrow> (error + int list) \<times> graph" where
  "graph_getitem g node =
     (if \<not> graph_contains g node then (Inl ValueError, g)
      else (let (s, d') = dict_getitem (adjacency_dict g) node
            in (Inr s, g\<lparr>adjacency_dict := d'\<rparr>)))"

text \<open>\<^verbatim>\<open>__eq__\<close>\<close>

definition graph_eq :: "graph \<Rightarrow> graph \<Rightarrow> bool" where
  "graph_eq g other = dict_eq (adjacency_dict g) (adjacency_dict other)"

subsection \<open>Iteration\<close>

text \<open>\<^verbatim>\<open>__iter__\<close> returns the graph itself.\<close>

definition graph_iter :: "graph \<Rightarrow> graph" where
  "graph_iter g = g"

text \<open>\<^verbatim>\<open>__next__\<close>: \<^verbatim>\<open>self.all_nodes.pop(0)\<close> removes the head of the stored list.\<close>

definition graph_next :: "graph \<Rightarrow> (error + int) \<times> graph" where
  "graph_next g =
     (case all_nodes g of
        [] \<Rightarrow> (Inl StopIteration, g)
      | node # rest \<Rightarrow> (Inr node, g\<lparr>all_nodes := rest\<rparr>))"

text \<open>
  A \<^verbatim>\<open>for\<close> loop over the graph (or \<^verbatim>\<open>list(g)\<close>): \<^verbatim>\<open>__iter__\<close>, then \<^verbatim>\<open>__next__\<close>
  until it raises \<^verbatim>\<open>StopIteration\<close>. The nodes yielded and the graph left behind.
\<close>

function iterate_from :: "graph \<Rightarrow> int list \<times> graph" where
  "iterate_from g =
     (case graph_next g of
        (Inl e, g') \<Rightarrow> ([], g')
      | (Inr node, g') \<Rightarrow> (let (nodes, g'') = iterate_from g' in (node # nodes, g'')))"
  by pat_completeness auto
termination
  by (relation "measure (\<lambda>g. length (all_nodes g))")
     (auto simp: graph_next_def split: list.splits)

definition iterate :: "graph \<Rightarrow> int list \<times> graph" where
  "iterate g = iterate_from (graph_iter g)"

subsection \<open>Breadth-first search\<close>

text \<open>
  The local variables of \<^verbatim>\<open>bfs\<close>, together with the adjacency dict, which every
  \<^verbatim>\<open>self.adjacency_dict[current_node]\<close> reads through the defaultdict.
\<close>

record bfs_state =
  adj :: adjacency
  distance_pairs :: "(int \<times> int) list"
  queue :: "int list"
  seen_nodes :: "int set"

text \<open>The innermost loop, over the neighbours of the current node.\<close>

fun visit_neighbors :: "int \<Rightarrow> int list \<Rightarrow> bfs_state \<Rightarrow> bfs_state" where
  "visit_neighbors distance [] st = st"
| "visit_neighbors distance (nb # nbs) st =
     (if nb \<in> seen_nodes st then visit_neighbors distance nbs st
      else visit_neighbors distance nbs
             (st\<lparr>seen_nodes := insert nb (seen_nodes st),
                 distance_pairs := distance_pairs st @ [(nb, distance)],
                 queue := queue st @ [nb]\<rparr>))"

text \<open>
  \<^verbatim>\<open>for _ in range(len(queue))\<close>: the number of rounds is fixed when the loop starts;
  each round pops the left end of the queue. \<^verbatim>\<open>popleft\<close> on an empty deque raises
  \<^verbatim>\<open>IndexError\<close>. The loops return the exception raised, if any, and the state reached.
\<close>

fun level_loop :: "nat \<Rightarrow> int \<Rightarrow> bfs_state \<Rightarrow> error option \<times> bfs_state" where
  "level_loop 0 distance st = (None, st)"
| "level_loop (Suc n) distance st =
     (case queue st of
        [] \<Rightarrow> (Some IndexError, st)
      | current_node # rest \<Rightarrow>
          (let (nbs, d') = dict_getitem (adj st) current_node
           in level_loop n distance
                (visit_neighbors distance nbs (st\<lparr>queue := rest, adj := d'\<rparr>))))"

text \<open>\<^verbatim>\<open>while queue:\<close> with the counter \<^verbatim>\<open>distance\<close>.\<close>

function while_queue :: "int \<Rightarrow> bfs_state \<Rightarrow> error option \<times> bfs_state" where
  "while_queue distance st =
     (if queue st = [] then (None, st)
      else (case level_loop (length (queue st)) (distance + 1) st of
              (Some e, st') \<Rightarrow> (Some e, st')
            | (None, st') \<Rightarrow> while_queue (distance + 1) st'))"
  by pat_completeness auto

definition bfs_start :: "graph \<Rightarrow> int \<Rightarrow> bfs_state" where
  "bfs_start g start_node =
     \<lparr>adj = adjacency_dict g, distance_pairs = [], queue = [start_node],
      seen_nodes = {start_node}\<rparr>"

definition bfs :: "graph \<Rightarrow> int \<Rightarrow> (error + (int \<times> int) list) \<times> graph" where
  "bfs g start_node =
     (if \<not> graph_contains g start_node then (Inl ValueError, g)
      else (case while_queue 0 (bfs_start g start_node) of
              (Some e, st) \<Rightarrow> (Inl e, g\<lparr>adjacency_dict := adj st\<rparr>)
            | (None, st) \<Rightarrow>
                (Inr (distance_pairs st @
                        map (\<lambda>node. (node, - 1))
                          (filter (\<lambda>node. node \<notin> seen_nodes st) (all_nodes g))),
                 g\<lparr>adjacency_dict := adj st\<rparr>)))"

text \<open>
  \<^verbatim>\<open>distance\<close>: the \<^verbatim>\<open>[0]\<close> on the filtered list raises \<^verbatim>\<open>IndexError\<close> when no pair
  of the bfs result has \<^verbatim>\<open>node2\<close> as its node.
\<close>

definition distance :: "graph \<Rightarrow> int \<Rightarrow> int \<Rightarrow> (error + int) \<times> graph" where
  "distance g node1 node2 =
     (if \<not> graph_contains g node1 \<or> \<not> graph_contains g node2 then (Inl ValueError, g)
      else if node1 = node2 then (Inr 0, g)
      else (case bfs g node1 of
              (Inl e, g') \<Rightarrow> (Inl e, g')
            | (Inr pairs, g') \<Rightarrow>
                (case filter (\<lambda>pair. fst pair = node2) pairs of
                   [] \<Rightarrow> (Inl IndexError, g')
                 | pair # _ \<Rightarrow> (Inr (snd pair), g'))))"

section \<open>Notions of the specification\<close>

subsection \<open>Neighbours, paths and distances\<close>

text \<open>
  The neighbour set stored for a node; a node that is not a key has none. \<open>edge d a b\<close>
  says that \<open>b\<close> is in the neighbour set of \<open>a\<close>.
\<close>

definition neighbours :: "adjacency \<Rightarrow> int \<Rightarrow> int list" where
  "neighbours d a = (case map_of d a of Some s \<Rightarrow> s | None \<Rightarrow> [])"

definition edge :: "adjacency \<Rightarrow> int \<Rightarrow> int \<Rightarrow> bool" where
  "edge d a b = (b \<in> set (neighbours d a))"

text \<open>
  \<open>path_len d k a b\<close>: there is a path of \<open>k\<close> edges from \<open>a\<close> to \<open>b\<close>. A shortest path
  has a length that no path undercuts; a node is reachable when some path leads to it.
\<close>

primrec path_len :: "adjacency \<Rightarrow> nat \<Rightarrow> int \<Rightarrow> int \<Rightarrow> bool" where
  "path_len d 0 a b = (a = b)"
| "path_len d (Suc k) a b = (\<exists>c. path_len d k a c \<and> edge d c b)"

definition shortest :: "adjacency \<Rightarrow> int \<Rightarrow> int \<Rightarrow> nat \<Rightarrow> bool" where
  "shortest d a b k = (path_len d k a b \<and> (\<forall>j<k. \<not> path_len d j a b))"

definition reachable :: "adjacency \<Rightarrow> int \<Rightarrow> int \<Rightarrow> bool" where
  "reachable d a b = (\<exists>k. path_len d k a b)"

subsection \<open>The invariants of the data model\<close>

text \<open>
  Symmetry: whenever \<open>b\<close> is in the neighbour set of \<open>a\<close>, \<open>a\<close> is in the neighbour set
  of \<open>b\<close> (so \<open>b\<close> is a key). Node order: \<open>all_nodes\<close> holds exactly the keys of the
  adjacency dict, each once. The definition runs over the keys, so that it evaluates;
  \<open>symmetric_iff\<close> below states it for all nodes.
\<close>

definition symmetric :: "adjacency \<Rightarrow> bool" where
  "symmetric d =
     list_all (\<lambda>a. list_all (\<lambda>b. a \<in> set (neighbours d b)) (neighbours d a)) (map fst d)"

definition graph_inv :: "graph \<Rightarrow> bool" where
  "graph_inv g =
     (symmetric (adjacency_dict g) \<and>
      distinct (all_nodes g) \<and>
      set (all_nodes g) = set (map fst (adjacency_dict g)))"

subsection \<open>Sequences of calls\<close>

text \<open>The two mutators, as a client calls them one after the other.\<close>

datatype mutation = AddEdge int int | AddNode int

fun apply_mutation :: "graph \<Rightarrow> mutation \<Rightarrow> graph" where
  "apply_mutation g (AddEdge u v) = add_edge g (u, v)"
| "apply_mutation g (AddNode n) = add_node g n"

text \<open>
  The public operations on a constructed graph. One call gives what the method returned
  or raised, and the graph after the call: an exception goes to the caller and the
  object stays as it was when the exception was raised. \<^verbatim>\<open>__contains__\<close> and
  \<^verbatim>\<open>__eq__\<close> only read the dict, so the graph after them is the graph before.
\<close>

datatype operation =
    AddEdgeOp int int
  | AddNodeOp int
  | ContainsOp int
  | EdgeExistsOp int int
  | NeighborsOp int
  | BfsOp int
  | DistanceOp int int
  | EqualsOp graph
  | NextOp

datatype val =
    NoneVal
  | BoolVal bool
  | IntVal int
  | SetVal "int list"
  | PairsVal "(int \<times> int) list"

fun run_operation :: "graph \<Rightarrow> operation \<Rightarrow> (error + val) \<times> graph" where
  "run_operation g (AddEdgeOp u v) = (Inr NoneVal, add_edge g (u, v))"
| "run_operation g (AddNodeOp n) = (Inr NoneVal, add_node g n)"
| "run_operation g (ContainsOp n) = (Inr (BoolVal (graph_contains g n)), g)"
| "run_operation g (EdgeExistsOp u v) =
     (case is_edge_in_graph g (u, v) of (b, g') \<Rightarrow> (Inr (BoolVal b), g'))"
| "run_operation g (NeighborsOp n) =
     (case graph_getitem g n of (r, g') \<Rightarrow> (map_sum id SetVal r, g'))"
| "run_operation g (BfsOp start_node) =
     (case bfs g start_node of (r, g') \<Rightarrow> (map_sum id PairsVal r, g'))"
| "run_operation g (DistanceOp node1 node2) =
     (case distance g node1 node2 of (r, g') \<Rightarrow> (map_sum id IntVal r, g'))"
| "run_operation g (EqualsOp other) = (Inr (BoolVal (graph_eq g other)), g)"
| "run_operation g NextOp =
     (case graph_next g of (r, g') \<Rightarrow> (map_sum id IntVal r, g'))"

definition run_operations :: "graph \<Rightarrow> operation list \<Rightarrow> graph" where
  "run_operations g ops = foldl (\<lambda>g op. snd (run_operation g op)) g ops"

text \<open>The operations that only ask, and the operations given a node that is not a key.\<close>

fun is_query :: "operation \<Rightarrow> bool" where
  "is_query (AddEdgeOp u v) = False"
| "is_query (AddNodeOp n) = False"
| "is_query NextOp = False"
| "is_query _ = True"

fun missing_node :: "graph \<Rightarrow> operation \<Rightarrow> bool" where
  "missing_node g (NeighborsOp n) = (\<not> graph_contains g n)"
| "missing_node g (BfsOp start_node) = (\<not> graph_contains g start_node)"
| "missing_node g (DistanceOp node1 node2) =
     (\<not> graph_contains g node1 \<or> \<not> graph_contains g node2)"
| "missing_node g _ = False"

subsection \<open>Two graphs to compute on\<close>

text \<open>The graph of the test suite, and a graph with two components.\<close>

definition figure_1 :: graph where
  "figure_1 = graph_init [(6, 4), (4, 3), (4, 5), (3, 2), (5, 2), (5, 1), (1, 2)]"

definition two_components :: graph where
  "two_components = graph_init [(1, 2), (2, 3), (4, 5)]"

section \<open>Auxiliary notions of the proofs\<close>

text \<open>
  What \<^verbatim>\<open>d[k].add(x)\<close> leaves in the dict; the nodes a pass over a list of neighbours
  newly sees, in the order it sees them, for one node and for a whole level; the dict
  after reading the entries of a list of nodes through the defaultdict.
\<close>

definition dict_add :: "adjacency \<Rightarrow> int \<Rightarrow> int \<Rightarrow> adjacency" where
  "dict_add d k x = AList.update k (set_add x (neighbours d k)) d"

fun fresh :: "int set \<Rightarrow> int list \<Rightarrow> int list" where
  "fresh S [] = []"
| "fresh S (x # xs) = (if x \<in> S then fresh S xs else x # fresh (insert x S) xs)"

fun fresh_level :: "(int \<Rightarrow> int list) \<Rightarrow> int set \<Rightarrow> int list \<Rightarrow> int list" where
  "fresh_level nb S [] = []"
| "fresh_level nb S (c # cs) = fresh S (nb c) @ fresh_level nb (S \<union> set (nb c)) cs"

definition touch :: "adjacency \<Rightarrow> int list \<Rightarrow> adjacency" where
  "touch d cs = foldl (\<lambda>d c. snd (dict_getitem d c)) d cs"

text \<open>
  The measure that bounds the \<^verbatim>\<open>while\<close> loop: the nodes that occur as somebody's
  neighbour and are not seen yet, and whether the queue is empty.
\<close>

definition nbr_universe :: "adjacency \<Rightarrow> int set" where
  "nbr_universe d = (\<Union>a\<in>set (map fst d). set (neighbours d a))"

definition bfs_measure :: "bfs_state \<Rightarrow> nat" where
  "bfs_measure st =
     2 * card (nbr_universe (adj st) - seen_nodes st) + (if queue st = [] then 0 else 1)"

text \<open>
  The nodes within \<open>k\<close> edges of \<open>a\<close>, the nodes at exactly \<open>k\<close> edges, and the
  invariant of the \<^verbatim>\<open>while\<close> loop when the counter \<^verbatim>\<open>distance\<close> is \<open>k\<close>.
\<close>

definition ball :: "adjacency \<Rightarrow> int \<Rightarrow> nat \<Rightarrow> int set" where
  "ball d a k = {b. \<exists>j\<le>k. path_len d j a b}"

definition level :: "adjacency \<Rightarrow> int \<Rightarrow> nat \<Rightarrow> int set" where
  "level d a k = {b. shortest d a b k}"

definition bfs_inv :: "adjacency \<Rightarrow> int \<Rightarrow> nat \<Rightarrow> bfs_state \<Rightarrow> bool" where
  "bfs_inv d a k st =
     (neighbours (adj st) = neighbours d \<and>
      set (queue st) = level d a k \<and>
      seen_nodes st = ball d a k \<and>
      distinct (map fst (distance_pairs st)) \<and>
      set (distance_pairs st) = {(n, int j) | n j. 1 \<le> j \<and> j \<le> k \<and> n \<in> level d a j})"

text \<open>Every neighbour is a key; the dict has each key once and \<open>all_nodes\<close> lists them.\<close>

definition closed :: "adjacency \<Rightarrow> bool" where
  "closed d = (\<forall>a b. edge d a b \<longrightarrow> dict_contains d b)"

definition node_order_ok :: "graph \<Rightarrow> bool" where
  "node_order_ok g =
     (distinct (map fst (adjacency_dict g)) \<and> all_nodes g = map fst (adjacency_dict g))"

section \<open>Proofs\<close>

subsection \<open>The defaultdict and the two inner loops of bfs\<close>

lemma fst_dict_getitem: "fst (dict_getitem d k) = neighbours d k"
  by (simp add: dict_getitem_def neighbours_def split: option.splits)

lemma neighbours_dict_getitem: "neighbours (snd (dict_getitem d k)) = neighbours d"
  by (rule ext) (auto simp: dict_getitem_def neighbours_def map_add_def split: option.splits)

lemma snd_dict_getitem_key: "dict_contains d k \<Longrightarrow> snd (dict_getitem d k) = d"
  by (auto simp: dict_getitem_def dict_contains_def map_of_eq_None_iff split: option.splits)

lemma set_fresh: "set (fresh S xs) = set xs - S"
  by (induction xs arbitrary: S) auto

lemma distinct_fresh: "distinct (fresh S xs)"
  by (induction xs arbitrary: S) (auto simp: set_fresh)

lemma set_fresh_level: "set (fresh_level nb S cs) = (\<Union>c\<in>set cs. set (nb c)) - S"
  by (induction cs arbitrary: S) (auto simp: set_fresh)

lemma distinct_fresh_level: "distinct (fresh_level nb S cs)"
  by (induction cs arbitrary: S) (auto simp: set_fresh set_fresh_level distinct_fresh)

lemma visit_neighbors_eq:
  "visit_neighbors dist nbs st =
     st\<lparr>seen_nodes := seen_nodes st \<union> set nbs,
        distance_pairs := distance_pairs st @ map (\<lambda>n. (n, dist)) (fresh (seen_nodes st) nbs),
        queue := queue st @ fresh (seen_nodes st) nbs\<rparr>"
  by (induction nbs arbitrary: st) (auto simp: insert_absorb)

lemma neighbours_touch: "neighbours (touch d cs) = neighbours d"
  unfolding touch_def
  by (induction cs arbitrary: d) (simp_all add: neighbours_dict_getitem)

lemma touch_keys: "\<forall>c\<in>set cs. dict_contains d c \<Longrightarrow> touch d cs = d"
  unfolding touch_def
  by (induction cs arbitrary: d) (simp_all add: snd_dict_getitem_key)

lemma level_loop_eq:
  "queue st = cs @ rest \<Longrightarrow>
   level_loop (length cs) dist st =
     (None, st\<lparr>adj := touch (adj st) cs,
             queue := rest @ fresh_level (neighbours (adj st)) (seen_nodes st) cs,
             seen_nodes := seen_nodes st \<union> (\<Union>c\<in>set cs. set (neighbours (adj st) c)),
             distance_pairs := distance_pairs st @
               map (\<lambda>n. (n, dist)) (fresh_level (neighbours (adj st)) (seen_nodes st) cs)\<rparr>)"
proof (induction cs arbitrary: st rest)
  case Nil
  then show ?case by (simp add: touch_def)
next
  case (Cons c cs)
  obtain nbs d' where g: "dict_getitem (adj st) c = (nbs, d')" by (cases "dict_getitem (adj st) c")
  have nbs: "nbs = neighbours (adj st) c" using g fst_dict_getitem[of "adj st" c] by simp
  have d': "neighbours d' = neighbours (adj st)" using g neighbours_dict_getitem[of "adj st" c] by simp
  let ?st1 = "visit_neighbors dist nbs (st\<lparr>queue := cs @ rest, adj := d'\<rparr>)"
  have q1: "queue ?st1 = cs @ (rest @ fresh (seen_nodes st) nbs)"
    by (simp add: visit_neighbors_eq)
  have t: "touch (adj st) (c # cs) = touch d' cs" using g by (simp add: touch_def)
  show ?case
    using Cons.prems g Cons.IH[OF q1]
    by (simp add: visit_neighbors_eq d' nbs t Un_assoc)
qed

subsection \<open>The while loop of bfs terminates\<close>

lemma neighbours_not_key: "\<not> dict_contains d a \<Longrightarrow> neighbours d a = []"
  by (auto simp: neighbours_def dict_contains_def map_of_eq_None_iff[symmetric] split: option.splits)

lemma nbr_universe_edge: "nbr_universe d = {b. \<exists>a. edge d a b}"
proof -
  have "\<And>a b. b \<in> set (neighbours d a) \<Longrightarrow> a \<in> fst ` set d"
    using neighbours_not_key[of d] by (fastforce simp: dict_contains_def)
  then show ?thesis by (auto simp: nbr_universe_def edge_def)
qed

lemma finite_nbr_universe: "finite (nbr_universe d)"
  by (simp add: nbr_universe_def)

lemma nbr_universe_touch: "nbr_universe (touch d cs) = nbr_universe d"
  by (simp add: nbr_universe_edge edge_def neighbours_touch)

lemma level_loop_measure:
  assumes "queue st \<noteq> []" and "level_loop (length (queue st)) dist st = (None, st')"
  shows "bfs_measure st' < bfs_measure st"
proof -
  let ?F = "fresh_level (neighbours (adj st)) (seen_nodes st) (queue st)"
  let ?U = "nbr_universe (adj st)"
  have st': "st' = st\<lparr>adj := touch (adj st) (queue st), queue := ?F,
      seen_nodes := seen_nodes st \<union> (\<Union>c\<in>set (queue st). set (neighbours (adj st) c)),
      distance_pairs := distance_pairs st @ map (\<lambda>n. (n, dist)) ?F\<rparr>"
    using assms(2) level_loop_eq[of st "queue st" "[]" dist] by simp
  have F: "set ?F = (\<Union>c\<in>set (queue st). set (neighbours (adj st) c)) - seen_nodes st"
    by (rule set_fresh_level)
  have sub: "set ?F \<subseteq> ?U - seen_nodes st"
    unfolding F by (auto simp: nbr_universe_edge edge_def)
  have seen': "?U - seen_nodes st' = (?U - seen_nodes st) - set ?F"
    unfolding st' using F by auto
  have U': "nbr_universe (adj st') = ?U" by (simp add: st' nbr_universe_touch)
  show ?thesis
  proof (cases "?F = []")
    case True
    then show ?thesis using assms(1) seen' U' by (simp add: bfs_measure_def st')
  next
    case False
    then obtain x where x: "x \<in> set ?F" by (cases ?F) auto
    have "(?U - seen_nodes st) - set ?F \<subset> ?U - seen_nodes st" using x sub by auto
    then have "card ((?U - seen_nodes st) - set ?F) < card (?U - seen_nodes st)"
      by (intro psubset_card_mono) (simp_all add: finite_nbr_universe)
    then show ?thesis using assms(1) seen' U' by (simp add: bfs_measure_def)
  qed
qed

termination while_queue
  by (relation "measure (\<lambda>(dist, st). bfs_measure st)") (auto intro: level_loop_measure)

subsection \<open>Levels of a breadth-first search\<close>

lemma shortest_unique: "shortest d a b j \<Longrightarrow> shortest d a b k \<Longrightarrow> j = k"
  unfolding shortest_def by (meson nat_neq_iff)

lemma reachable_shortest: "reachable d a b \<Longrightarrow> \<exists>k. shortest d a b k"
proof -
  assume "reachable d a b"
  then obtain k where k: "path_len d k a b" by (auto simp: reachable_def)
  let ?m = "LEAST k. path_len d k a b"
  have "path_len d ?m a b" using k by (rule LeastI)
  moreover have "\<forall>j<?m. \<not> path_len d j a b" using not_less_Least by blast
  ultimately show ?thesis unfolding shortest_def by blast
qed

lemma ball_level: "ball d a k = (\<Union>j\<le>k. level d a j)"
proof (rule set_eqI)
  fix b
  show "b \<in> ball d a k \<longleftrightarrow> b \<in> (\<Union>j\<le>k. level d a j)"
  proof
    assume "b \<in> ball d a k"
    then obtain j where j: "j \<le> k" "path_len d j a b" by (auto simp: ball_def)
    then have "reachable d a b" by (auto simp: reachable_def)
    then obtain m where m: "shortest d a b m" using reachable_shortest by blast
    have "m \<le> j" using m j(2) unfolding shortest_def by (meson not_le)
    then show "b \<in> (\<Union>j\<le>k. level d a j)" using m j(1) by (auto simp: level_def)
  next
    assume "b \<in> (\<Union>j\<le>k. level d a j)"
    then show "b \<in> ball d a k" by (auto simp: level_def ball_def shortest_def)
  qed
qed

lemma level_0: "level d a 0 = {a}"
  by (auto simp: level_def shortest_def)

lemma ball_0: "ball d a 0 = {a}"
  by (auto simp: ball_def)

lemma ball_Suc: "ball d a (Suc k) = ball d a k \<union> level d a (Suc k)"
  unfolding ball_level by (auto simp: le_Suc_eq)

lemma level_Suc:
  "level d a (Suc k) = {b. \<exists>c\<in>level d a k. edge d c b} - ball d a k"
proof (rule set_eqI)
  fix b
  show "b \<in> level d a (Suc k) \<longleftrightarrow> b \<in> {b. \<exists>c\<in>level d a k. edge d c b} - ball d a k"
  proof
    assume "b \<in> level d a (Suc k)"
    then have p: "path_len d (Suc k) a b" and m: "\<forall>j<Suc k. \<not> path_len d j a b"
      by (auto simp: level_def shortest_def)
    from p obtain c where c: "path_len d k a c" "edge d c b" by auto
    have "\<forall>j<k. \<not> path_len d j a c"
    proof (intro allI impI notI)
      fix j assume "j < k" "path_len d j a c"
      then have "path_len d (Suc j) a b" "Suc j < Suc k" using c(2) by auto
      then show False using m by blast
    qed
    then have "c \<in> level d a k" using c(1) by (simp add: level_def shortest_def)
    moreover have "b \<notin> ball d a k" using m by (auto simp: ball_def)
    ultimately show "b \<in> {b. \<exists>c\<in>level d a k. edge d c b} - ball d a k" using c(2) by blast
  next
    assume "b \<in> {b. \<exists>c\<in>level d a k. edge d c b} - ball d a k"
    then obtain c where c: "c \<in> level d a k" "edge d c b" and nb: "b \<notin> ball d a k" by blast
    have "path_len d (Suc k) a b" using c by (auto simp: level_def shortest_def)
    moreover have "\<forall>j<Suc k. \<not> path_len d j a b" using nb by (auto simp: ball_def)
    ultimately show "b \<in> level d a (Suc k)" by (simp add: level_def shortest_def)
  qed
qed

lemma level_empty_mono: "level d a k = {} \<Longrightarrow> k \<le> j \<Longrightarrow> level d a j = {}"
proof (induction j)
  case 0
  then show ?case by simp
next
  case (Suc j)
  show ?case
  proof (cases "k = Suc j")
    case True
    then show ?thesis using Suc.prems by simp
  next
    case False
    then have "level d a j = {}" using Suc by simp
    then show ?thesis by (simp add: level_Suc)
  qed
qed

lemma level_empty_ball: 
  assumes "level d a k = {}"
  shows "ball d a k = {b. reachable d a b}"
proof (rule set_eqI)
  fix b
  show "b \<in> ball d a k \<longleftrightarrow> b \<in> {b. reachable d a b}"
  proof
    assume "b \<in> ball d a k"
    then show "b \<in> {b. reachable d a b}" by (auto simp: ball_def reachable_def)
  next
    assume "b \<in> {b. reachable d a b}"
    then obtain m where m: "shortest d a b m" using reachable_shortest by blast
    then have "level d a m \<noteq> {}" by (auto simp: level_def)
    then have "m < k" using level_empty_mono[OF assms, of m] by (meson not_le)
    then show "b \<in> ball d a k" using m by (auto simp: ball_level level_def intro: less_imp_le)
  qed
qed

subsection \<open>The invariant of the while loop\<close>

declare while_queue.simps [simp del]

lemma bfs_inv_start: "bfs_inv (adjacency_dict g) a 0 (bfs_start g a)"
  by (simp add: bfs_inv_def bfs_start_def level_0 ball_0)

lemma bfs_inv_step:
  assumes inv: "bfs_inv d a k st"
  shows "\<exists>st'. level_loop (length (queue st)) (int k + 1) st = (None, st') \<and>
               bfs_inv d a (Suc k) st'"
proof -
  let ?nb = "neighbours d"
  let ?F = "fresh_level ?nb (seen_nodes st) (queue st)"
  let ?st' = "st\<lparr>adj := touch (adj st) (queue st), queue := ?F,
      seen_nodes := seen_nodes st \<union> (\<Union>c\<in>set (queue st). set (?nb c)),
      distance_pairs := distance_pairs st @ map (\<lambda>n. (n, int k + 1)) ?F\<rparr>"
  from inv have nb: "neighbours (adj st) = ?nb" and q: "set (queue st) = level d a k"
    and seen: "seen_nodes st = ball d a k" and dist: "distinct (map fst (distance_pairs st))"
    and pairs: "set (distance_pairs st) = {(n, int j) | n j. 1 \<le> j \<and> j \<le> k \<and> n \<in> level d a j}"
    by (simp_all add: bfs_inv_def)
  have run: "level_loop (length (queue st)) (int k + 1) st = (None, ?st')"
    using level_loop_eq[of st "queue st" "[]" "int k + 1"] by (simp add: nb)
  have F: "set ?F = level d a (Suc k)"
    by (auto simp: set_fresh_level q seen level_Suc edge_def)
  have seen': "seen_nodes ?st' = ball d a (Suc k)"
  proof -
    have "ball d a k \<union> (\<Union>c\<in>level d a k. set (?nb c)) = ball d a k \<union> level d a (Suc k)"
      by (auto simp: level_Suc edge_def)
    then show ?thesis by (simp add: seen q ball_Suc)
  qed
  have fsts: "fst ` set (distance_pairs st) \<subseteq> ball d a k"
    unfolding pairs ball_level by auto
  have disj: "level d a (Suc k) \<inter> ball d a k = {}" by (auto simp: level_Suc)
  have dist': "distinct (map fst (distance_pairs ?st'))"
    using dist fsts disj by (auto simp: comp_def distinct_fresh_level F)
  have pairs': "set (distance_pairs ?st') =
      {(n, int j) | n j. 1 \<le> j \<and> j \<le> Suc k \<and> n \<in> level d a j}"
  proof -
    have k1: "int k + 1 = int (Suc k)" by simp
    have "{(n, int j) | n j. 1 \<le> j \<and> j \<le> Suc k \<and> n \<in> level d a j} =
          {(n, int j) | n j. 1 \<le> j \<and> j \<le> k \<and> n \<in> level d a j} \<union>
          (\<lambda>n. (n, int k + 1)) ` level d a (Suc k)"
      unfolding k1 by (auto simp: le_Suc_eq simp del: of_nat_Suc)
    then show ?thesis by (simp add: pairs F Un_commute del: of_nat_Suc)
  qed
  have "bfs_inv d a (Suc k) ?st'"
    unfolding bfs_inv_def using seen' dist' pairs' F nb
    by (simp add: neighbours_touch)
  then show ?thesis using run by blast
qed

lemma while_queue_inv:
  "dist = int k \<Longrightarrow> bfs_inv d a k st \<Longrightarrow>
   \<exists>st' m. while_queue dist st = (None, st') \<and> bfs_inv d a m st' \<and> queue st' = []"
proof (induction dist st arbitrary: k rule: while_queue.induct)
  case (1 distance st)
  show ?case
  proof (cases "queue st = []")
    case True
    then show ?thesis using "1.prems" by (subst while_queue.simps) auto
  next
    case False
    from bfs_inv_step[OF "1.prems"(2)] obtain st1 where
      st1: "level_loop (length (queue st)) (int k + 1) st = (None, st1)"
      and inv1: "bfs_inv d a (Suc k) st1" by blast
    have st1': "level_loop (length (queue st)) (distance + 1) st = (None, st1)"
      using st1 "1.prems"(1) by simp
    have "distance + 1 = int (Suc k)" using "1.prems"(1) by simp
    then have "\<exists>st' m. while_queue (distance + 1) st1 = (None, st') \<and> bfs_inv d a m st' \<and> queue st' = []"
      using "1.IH"[OF False st1'[symmetric] refl _ inv1] by blast
    then show ?thesis using False st1' by (subst while_queue.simps) simp
  qed
qed

lemma bfs_inv_final:
  assumes "bfs_inv d a m st" and "queue st = []"
  shows "seen_nodes st = {b. reachable d a b}"
    and "set (distance_pairs st) = {(n, int j) | n j. 1 \<le> j \<and> shortest d a n j}"
proof -
  have e: "level d a m = {}" using assms by (simp add: bfs_inv_def)
  show "seen_nodes st = {b. reachable d a b}"
    using assms(1) level_empty_ball[OF e] by (simp add: bfs_inv_def)
  have "\<And>j n. n \<in> level d a j \<Longrightarrow> j \<le> m"
    using level_empty_mono[OF e] by (metis empty_iff nat_le_linear)
  then have "{(n, int j) | n j. 1 \<le> j \<and> j \<le> m \<and> n \<in> level d a j} =
             {(n, int j) | n j. 1 \<le> j \<and> n \<in> level d a j}" by blast
  then show "set (distance_pairs st) = {(n, int j) | n j. 1 \<le> j \<and> shortest d a n j}"
    using assms(1) by (simp add: bfs_inv_def level_def)
qed

lemma while_queue_adj:
  "closed (adj st) \<Longrightarrow> \<forall>c\<in>set (queue st). dict_contains (adj st) c \<Longrightarrow>
   adj (snd (while_queue dist st)) = adj st"
proof (induction dist st rule: while_queue.induct)
  case (1 distance st)
  show ?case
  proof (cases "queue st = []")
    case True
    then show ?thesis by (subst while_queue.simps) simp
  next
    case False
    let ?F = "fresh_level (neighbours (adj st)) (seen_nodes st) (queue st)"
    let ?st1 = "st\<lparr>adj := touch (adj st) (queue st), queue := ?F,
      seen_nodes := seen_nodes st \<union> (\<Union>c\<in>set (queue st). set (neighbours (adj st) c)),
      distance_pairs := distance_pairs st @ map (\<lambda>n. (n, distance + 1)) ?F\<rparr>"
    have run: "level_loop (length (queue st)) (distance + 1) st = (None, ?st1)"
      using level_loop_eq[of st "queue st" "[]" "distance + 1"] by simp
    have t: "touch (adj st) (queue st) = adj st" using "1.prems"(2) by (rule touch_keys)
    have adj1: "adj ?st1 = adj st" by (simp add: t)
    have c1: "closed (adj ?st1)" using "1.prems"(1) by (simp add: t)
    have q1: "\<forall>c\<in>set (queue ?st1). dict_contains (adj ?st1) c"
      using "1.prems"(1) by (auto simp: t set_fresh_level closed_def edge_def)
    have "adj (snd (while_queue (distance + 1) ?st1)) = adj ?st1"
      using "1.IH"[OF False run[symmetric] refl c1 q1] by simp
    then show ?thesis using False run adj1 by (subst while_queue.simps) simp
  qed
qed

subsection \<open>What bfs returns\<close>

lemma edge_key: "edge d a b \<Longrightarrow> dict_contains d a"
  by (cases "dict_contains d a") (auto simp: edge_def neighbours_not_key)

lemma symmetric_iff: "symmetric d \<longleftrightarrow> (\<forall>a b. edge d a b \<longrightarrow> edge d b a)"
proof
  assume s: "symmetric d"
  show "\<forall>a b. edge d a b \<longrightarrow> edge d b a"
  proof (intro allI impI)
    fix a b assume e: "edge d a b"
    then have "a \<in> set (map fst d)" using edge_key[OF e] by (simp add: dict_contains_def)
    then have "list_all (\<lambda>b. a \<in> set (neighbours d b)) (neighbours d a)"
      using s unfolding symmetric_def list_all_iff by blast
    then show "edge d b a" using e by (simp add: edge_def list_all_iff)
  qed
next
  assume "\<forall>a b. edge d a b \<longrightarrow> edge d b a"
  then show "symmetric d" by (auto simp: symmetric_def list_all_iff edge_def)
qed

lemma symmetric_closed: "symmetric d \<Longrightarrow> closed d"
  unfolding closed_def symmetric_iff using edge_key by blast

lemma shortest_0: "shortest d a b 0 \<longleftrightarrow> b = a"
  by (auto simp: shortest_def)

lemma reachable_self: "reachable d a a"
  unfolding reachable_def by (rule exI[of _ 0]) simp

lemma reachable_key: "closed d \<Longrightarrow> reachable d a b \<Longrightarrow> b \<noteq> a \<Longrightarrow> dict_contains d b"
proof -
  assume c: "closed d" and r: "reachable d a b" and ne: "b \<noteq> a"
  from r obtain k where k: "path_len d k a b" by (auto simp: reachable_def)
  show ?thesis
  proof (cases k)
    case 0
    then show ?thesis using k ne by simp
  next
    case (Suc j)
    then obtain c' where "edge d c' b" using k by auto
    then show ?thesis using c by (auto simp: closed_def)
  qed
qed

lemma bfs_run:
  assumes "graph_contains g a"
  shows "\<exists>st :: bfs_state. bfs g a =
           (Inr (distance_pairs st @
                   map (\<lambda>node. (node, - 1))
                     (filter (\<lambda>node. node \<notin> seen_nodes st) (all_nodes g))),
            g\<lparr>adjacency_dict := adj st\<rparr>) \<and>
          seen_nodes st = {b. reachable (adjacency_dict g) a b} \<and>
          distinct (map fst (distance_pairs st)) \<and>
          set (distance_pairs st) =
            {(n, int j) | n j. 1 \<le> j \<and> shortest (adjacency_dict g) a n j} \<and>
          (closed (adjacency_dict g) \<longrightarrow> adj st = adjacency_dict g)"
proof -
  let ?d = "adjacency_dict g"
  from while_queue_inv[OF _ bfs_inv_start, of 0 g a]
  obtain st m where run: "while_queue 0 (bfs_start g a) = (None, st)"
    and inv: "bfs_inv ?d a m st" and q: "queue st = []" by auto
  have cl: "closed ?d \<longrightarrow> adj st = ?d"
  proof
    assume "closed ?d"
    then have "adj (snd (while_queue 0 (bfs_start g a))) = adj (bfs_start g a)"
      using assms by (intro while_queue_adj) (simp_all add: bfs_start_def graph_contains_def)
    then show "adj st = ?d" using run by (simp add: bfs_start_def)
  qed
  have res: "bfs g a =
           (Inr (distance_pairs st @
                   map (\<lambda>node. (node, - 1))
                     (filter (\<lambda>node. node \<notin> seen_nodes st) (all_nodes g))),
            g\<lparr>adjacency_dict := adj st\<rparr>)"
    using assms run by (simp add: bfs_def)
  have dst: "distinct (map fst (distance_pairs st))" using inv by (simp add: bfs_inv_def)
  show ?thesis
    using res bfs_inv_final[OF inv q] dst cl
    by (intro exI[of _ st] conjI) assumption+
qed

subsection \<open>The mutators\<close>

lemma dict_getitem_key: "dict_contains d k \<Longrightarrow> dict_getitem d k = (neighbours d k, d)"
  using fst_dict_getitem[of d k] snd_dict_getitem_key[of d k]
  by (cases "dict_getitem d k") simp

lemma is_edge_in_graph_eq: "is_edge_in_graph g (u, v) = (edge (adjacency_dict g) u v, g)"
proof (cases "dict_contains (adjacency_dict g) u")
  case True
  then show ?thesis by (simp add: dict_getitem_key edge_def)
next
  case False
  then show ?thesis by (simp add: edge_def neighbours_not_key)
qed

declare is_edge_in_graph.simps [simp del]

lemma update_append_fresh:
  "k \<notin> fst ` set d \<Longrightarrow> AList.update k v (d @ [(k, w)]) = AList.update k v d"
  by (induction d) auto

lemma getitem_setitem:
  assumes "dict_getitem d k = (s, d1)"
  shows "dict_setitem d1 k (set_add x s) = dict_add d k x"
proof (cases "map_of d k")
  case None
  then have "k \<notin> fst ` set d" by (simp add: map_of_eq_None_iff)
  then show ?thesis
    using assms None
    by (auto simp: dict_getitem_def dict_setitem_def dict_add_def neighbours_def
        update_append_fresh)
next
  case (Some t)
  then show ?thesis
    using assms by (simp add: dict_getitem_def dict_setitem_def dict_add_def neighbours_def)
qed

lemma add_edge_eq:
  "add_edge g (u, v) =
     (if edge (adjacency_dict g) u v then g
      else update_all_nodes
             (g\<lparr>adjacency_dict := dict_add (dict_add (adjacency_dict g) u v) v u\<rparr>))"
proof -
  obtain s0 d1 where g0: "dict_getitem (adjacency_dict g) u = (s0, d1)"
    by (cases "dict_getitem (adjacency_dict g) u")
  obtain s1 d3 where g1: "dict_getitem (dict_add (adjacency_dict g) u v) v = (s1, d3)"
    by (cases "dict_getitem (dict_add (adjacency_dict g) u v) v")
  show ?thesis
    using g0 g1 getitem_setitem[OF g0, of v] getitem_setitem[OF g1, of u]
    by (simp add: is_edge_in_graph_eq)
qed

declare add_edge.simps [simp del]

lemma neighbours_dict_add:
  "neighbours (dict_add d k x) = (neighbours d)(k := set_add x (neighbours d k))"
  by (rule ext) (simp add: neighbours_def dict_add_def update_conv')

lemma edge_dict_add: "edge (dict_add d k x) a b \<longleftrightarrow> edge d a b \<or> (a = k \<and> b = x)"
  by (auto simp: edge_def neighbours_dict_add set_add_def)

lemma keys_dict_add: "fst ` set (dict_add d k x) = insert k (fst ` set d)"
  by (simp add: dict_add_def dom_update)

lemma dict_contains_dict_add: "dict_contains (dict_add d k x) a \<longleftrightarrow> a = k \<or> dict_contains d a"
  by (simp add: dict_contains_def keys_dict_add)

lemma edge_add_edge:
  "edge (adjacency_dict (add_edge g (u, v))) a b \<longleftrightarrow>
     edge (adjacency_dict g) a b \<or>
     (\<not> edge (adjacency_dict g) u v \<and> ((a = u \<and> b = v) \<or> (a = v \<and> b = u)))"
  by (auto simp: add_edge_eq update_all_nodes_def edge_dict_add)

lemma contains_add_edge:
  "graph_contains (add_edge g (u, v)) a \<longleftrightarrow>
     graph_contains g a \<or> (\<not> edge (adjacency_dict g) u v \<and> (a = u \<or> a = v))"
  by (auto simp: add_edge_eq update_all_nodes_def graph_contains_def dict_contains_dict_add)

lemma neighbours_setitem_empty:
  "\<not> dict_contains d n \<Longrightarrow> neighbours (dict_setitem d n []) = neighbours d"
  by (rule ext) (simp add: neighbours_def dict_setitem_def update_conv' neighbours_not_key
      dict_contains_def map_of_eq_None_iff[symmetric] split: option.splits)

lemma edge_add_node: "edge (adjacency_dict (add_node g n)) a b \<longleftrightarrow> edge (adjacency_dict g) a b"
  by (simp add: add_node_def update_all_nodes_def edge_def graph_contains_def
      neighbours_setitem_empty)

lemma contains_add_node: "graph_contains (add_node g n) a \<longleftrightarrow> a = n \<or> graph_contains g a"
  by (auto simp: add_node_def update_all_nodes_def graph_contains_def dict_contains_def
      dict_setitem_def dom_update)

lemma symmetric_add_edge: "symmetric (adjacency_dict g) \<Longrightarrow> symmetric (adjacency_dict (add_edge g e))"
  by (cases e) (auto simp: symmetric_iff edge_add_edge)

lemma symmetric_add_node: "symmetric (adjacency_dict g) \<Longrightarrow> symmetric (adjacency_dict (add_node g n))"
  by (simp add: symmetric_iff edge_add_node)

lemma symmetric_apply_mutation:
  "symmetric (adjacency_dict g) \<Longrightarrow> symmetric (adjacency_dict (apply_mutation g m))"
  by (cases m) (simp_all add: symmetric_add_edge symmetric_add_node)

lemma symmetric_foldl_add_edge:
  "symmetric (adjacency_dict g) \<Longrightarrow> symmetric (adjacency_dict (foldl add_edge g es))"
  by (induction es arbitrary: g) (simp_all add: symmetric_add_edge)

lemma symmetric_graph_init: "symmetric (adjacency_dict (graph_init es))"
proof -
  have "symmetric (adjacency_dict empty_graph)" by (simp add: empty_graph_def symmetric_def)
  then show ?thesis
    by (simp add: graph_init_def update_all_nodes_def symmetric_foldl_add_edge)
qed

lemma symmetric_foldl_apply_mutation:
  "symmetric (adjacency_dict g) \<Longrightarrow> symmetric (adjacency_dict (foldl apply_mutation g ms))"
  by (induction ms arbitrary: g) (simp_all add: symmetric_apply_mutation)

lemma graph_getitem_key:
  "graph_contains g n \<Longrightarrow> graph_getitem g n = (Inr (neighbours (adjacency_dict g) n), g)"
  by (simp add: graph_getitem_def graph_contains_def dict_getitem_key)

lemma edge_foldl_add_edge_mono:
  "edge (adjacency_dict g) a b \<Longrightarrow> edge (adjacency_dict (foldl add_edge g es)) a b"
proof (induction es arbitrary: g)
  case Nil
  then show ?case by simp
next
  case (Cons e es)
  obtain u v where e: "e = (u, v)" by (cases e)
  have "edge (adjacency_dict (add_edge g e)) a b" using Cons.prems by (simp add: e edge_add_edge)
  then show ?case using Cons.IH by simp
qed

lemma edge_foldl_add_edge:
  "symmetric (adjacency_dict g) \<Longrightarrow> (u, v) \<in> set es \<Longrightarrow>
   edge (adjacency_dict (foldl add_edge g es)) u v \<and>
   edge (adjacency_dict (foldl add_edge g es)) v u"
proof (induction es arbitrary: g)
  case Nil
  then show ?case by simp
next
  case (Cons e es)
  have s: "symmetric (adjacency_dict (add_edge g e))" using Cons.prems(1) by (rule symmetric_add_edge)
  show ?case
  proof (cases "e = (u, v)")
    case True
    have "edge (adjacency_dict (add_edge g e)) u v" by (auto simp: True edge_add_edge)
    moreover from this have "edge (adjacency_dict (add_edge g e)) v u"
      using s by (simp add: symmetric_iff)
    ultimately show ?thesis by (simp add: edge_foldl_add_edge_mono)
  next
    case False
    then have "(u, v) \<in> set es" using Cons.prems(2) by auto
    then show ?thesis using Cons.IH[OF s] by simp
  qed
qed

lemma dict_eq_refl: "dict_eq d d"
  by (simp add: dict_eq_def list_all_iff)

lemma add_edge_twice: "add_edge (add_edge g (u, v)) (u, v) = add_edge g (u, v)"
proof -
  have "edge (adjacency_dict (add_edge g (u, v))) u v" by (auto simp: edge_add_edge)
  then show ?thesis by (subst add_edge_eq) simp
qed

lemma add_node_twice: "add_node (add_node g n) n = add_node g n"
proof -
  have "graph_contains (add_node g n) n" by (simp add: contains_add_node)
  then show ?thesis by (subst add_node_def) simp
qed

subsection \<open>bfs and distance on a graph that satisfies the invariants\<close>

lemma bfs_spec:
  assumes "graph_inv g" and "graph_contains g start_node"
  shows "\<exists>pairs. fst (bfs g start_node) = Inr pairs \<and>
           distinct (map fst pairs) \<and>
           set (map fst pairs) = set (map fst (adjacency_dict g)) - {start_node} \<and>
           (\<forall>(node, dist) \<in> set pairs.
              (reachable (adjacency_dict g) start_node node \<longrightarrow>
                 (\<exists>k. dist = int k \<and> shortest (adjacency_dict g) start_node node k)) \<and>
              (\<not> reachable (adjacency_dict g) start_node node \<longrightarrow> dist = - 1))"
proof -
  let ?d = "adjacency_dict g"
  let ?a = start_node
  from bfs_run[OF assms(2)] obtain st :: bfs_state where
    run: "bfs g ?a = (Inr (distance_pairs st @ map (\<lambda>node. (node, - 1))
              (filter (\<lambda>node. node \<notin> seen_nodes st) (all_nodes g))),
            g\<lparr>adjacency_dict := adj st\<rparr>)"
    and seen: "seen_nodes st = {b. reachable ?d ?a b}"
    and dist: "distinct (map fst (distance_pairs st))"
    and pairs: "set (distance_pairs st) = {(n, int j) | n j. 1 \<le> j \<and> shortest ?d ?a n j}"
    by blast
  let ?un = "filter (\<lambda>node. node \<notin> seen_nodes st) (all_nodes g)"
  let ?ps = "distance_pairs st @ map (\<lambda>node. (node, - 1)) ?un"
  have cl: "closed ?d" using assms(1) by (simp add: graph_inv_def symmetric_closed)
  have nodes: "distinct (all_nodes g)" "set (all_nodes g) = set (map fst ?d)"
    using assms(1) by (simp_all add: graph_inv_def)
  have fsts: "fst ` set (distance_pairs st) = {b. reachable ?d ?a b} - {?a}"
  proof (rule set_eqI)
    fix n
    show "n \<in> fst ` set (distance_pairs st) \<longleftrightarrow> n \<in> {b. reachable ?d ?a b} - {?a}"
    proof
      assume "n \<in> fst ` set (distance_pairs st)"
      then obtain j where j: "1 \<le> j" "shortest ?d ?a n j" unfolding pairs by auto
      have "n \<noteq> ?a"
      proof
        assume "n = ?a"
        then have "shortest ?d ?a n 0" by (simp add: shortest_0)
        then show False using j shortest_unique by fastforce
      qed
      moreover have "reachable ?d ?a n" using j(2) by (auto simp: reachable_def shortest_def)
      ultimately show "n \<in> {b. reachable ?d ?a b} - {?a}" by simp
    next
      assume n: "n \<in> {b. reachable ?d ?a b} - {?a}"
      then obtain j where j: "shortest ?d ?a n j" using reachable_shortest by blast
      have "j \<noteq> 0" using n j by (cases j) (auto simp: shortest_0)
      then have "(n, int j) \<in> set (distance_pairs st)" unfolding pairs using j by auto
      then show "n \<in> fst ` set (distance_pairs st)" by force
    qed
  qed
  have res: "fst (bfs g ?a) = Inr ?ps" by (simp add: run)
  have d: "distinct (map fst ?ps)"
    using dist nodes(1) fsts by (auto simp: comp_def seen)
  have keys: "set (map fst ?ps) = set (map fst ?d) - {?a}"
  proof -
    have "{b. reachable ?d ?a b} - {?a} \<subseteq> set (map fst ?d)"
      using reachable_key[OF cl] by (auto simp: dict_contains_def)
    moreover have "set (map fst ?ps) =
        ({b. reachable ?d ?a b} - {?a}) \<union> (set (map fst ?d) - {b. reachable ?d ?a b})"
      using fsts nodes(2) by (auto simp: seen image_Un comp_def)
    ultimately show ?thesis using reachable_self[of ?d ?a] by auto
  qed
  have vals: "\<forall>(node, dist) \<in> set ?ps.
              (reachable ?d ?a node \<longrightarrow> (\<exists>k. dist = int k \<and> shortest ?d ?a node k)) \<and>
              (\<not> reachable ?d ?a node \<longrightarrow> dist = - 1)"
  proof (clarify, intro conjI impI)
    fix n dd assume m: "(n, dd) \<in> set ?ps" and r: "reachable ?d ?a n"
    from m r have "(n, dd) \<in> set (distance_pairs st)" by (auto simp: seen)
    then show "\<exists>k. dd = int k \<and> shortest ?d ?a n k" unfolding pairs by auto
  next
    fix n dd assume m: "(n, dd) \<in> set ?ps" and r: "\<not> reachable ?d ?a n"
    have "(n, dd) \<notin> set (distance_pairs st)"
      using r unfolding pairs by (auto simp: reachable_def shortest_def)
    then show "dd = - 1" using m by auto
  qed
  show ?thesis using res d keys vals by blast
qed

lemma path_len_first:
  "path_len d (Suc k) a b \<longleftrightarrow> (\<exists>c. edge d a c \<and> path_len d k c b)"
proof (induction k arbitrary: b)
  case 0
  then show ?case by auto
next
  case (Suc k)
  have "path_len d (Suc (Suc k)) a b \<longleftrightarrow> (\<exists>c'. path_len d (Suc k) a c' \<and> edge d c' b)"
    by simp
  also have "\<dots> \<longleftrightarrow> (\<exists>c' c. edge d a c \<and> path_len d k c c' \<and> edge d c' b)"
    using Suc.IH by blast
  also have "\<dots> \<longleftrightarrow> (\<exists>c. edge d a c \<and> path_len d (Suc k) c b)"
    by auto
  finally show ?case .
qed

lemma path_len_sym:
  "symmetric d \<Longrightarrow> path_len d k a b \<Longrightarrow> path_len d k b a"
proof (induction k arbitrary: b)
  case 0
  then show ?case by simp
next
  case (Suc k)
  from Suc.prems(2) obtain c where c: "path_len d k a c" "edge d c b" by auto
  have "path_len d k c a" using Suc.IH[OF Suc.prems(1) c(1)] .
  moreover have "edge d b c" using Suc.prems(1) c(2) by (simp add: symmetric_iff)
  ultimately show ?case unfolding path_len_first by blast
qed

lemma shortest_sym: "symmetric d \<Longrightarrow> shortest d a b k \<longleftrightarrow> shortest d b a k"
  unfolding shortest_def using path_len_sym by blast

lemma reachable_sym: "symmetric d \<Longrightarrow> reachable d a b \<longleftrightarrow> reachable d b a"
  unfolding reachable_def using path_len_sym by blast

lemma bfs_not_key: "\<not> graph_contains g a \<Longrightarrow> bfs g a = (Inl ValueError, g)"
  by (simp add: bfs_def)

lemma bfs_key_returns: "graph_contains g a \<Longrightarrow> \<exists>pairs. fst (bfs g a) = Inr pairs"
  using bfs_run[of g a] by auto

lemma bfs_frame: "closed (adjacency_dict g) \<Longrightarrow> snd (bfs g a) = g"
proof (cases "graph_contains g a")
  case True
  assume "closed (adjacency_dict g)"
  then show ?thesis using bfs_run[OF True] by auto
next
  case False
  then show ?thesis by (simp add: bfs_not_key)
qed

lemma distance_frame: "closed (adjacency_dict g) \<Longrightarrow> snd (distance g a b) = g"
proof -
  assume "closed (adjacency_dict g)"
  then have "snd (bfs g a) = g" by (rule bfs_frame)
  then show ?thesis
    by (cases "bfs g a") (auto simp: distance_def split: sum.splits list.splits)
qed

lemma distance_spec:
  assumes "graph_inv g" and "graph_contains g a" and "graph_contains g b" and "a \<noteq> b"
  shows "\<exists>pairs dist. fst (bfs g a) = Inr pairs \<and> (b, dist) \<in> set pairs \<and>
           distance g a b = (Inr dist, g) \<and>
           (reachable (adjacency_dict g) a b \<longrightarrow>
              (\<exists>k. dist = int k \<and> shortest (adjacency_dict g) a b k)) \<and>
           (\<not> reachable (adjacency_dict g) a b \<longrightarrow> dist = - 1)"
proof -
  let ?d = "adjacency_dict g"
  from bfs_spec[OF assms(1,2)] obtain pairs where
    p: "fst (bfs g a) = Inr pairs"
    and keys: "set (map fst pairs) = set (map fst ?d) - {a}"
    and vals: "\<forall>(node, dist) \<in> set pairs.
              (reachable ?d a node \<longrightarrow> (\<exists>k. dist = int k \<and> shortest ?d a node k)) \<and>
              (\<not> reachable ?d a node \<longrightarrow> dist = - 1)"
    by blast
  have "closed ?d" using assms(1) by (simp add: graph_inv_def symmetric_closed)
  then have run: "bfs g a = (Inr pairs, g)" using p bfs_frame[of g a] by (cases "bfs g a") simp
  have "b \<in> set (map fst pairs)" using assms(3,4) keys by (simp add: graph_contains_def dict_contains_def)
  then have "filter (\<lambda>pair. fst pair = b) pairs \<noteq> []"
    by (auto simp: filter_empty_conv)
  then obtain pair rest where f: "filter (\<lambda>pair. fst pair = b) pairs = pair # rest"
    by (cases "filter (\<lambda>pair. fst pair = b) pairs") auto
  have "pair \<in> set (filter (\<lambda>pair. fst pair = b) pairs)" by (simp add: f)
  then have m: "(b, snd pair) \<in> set pairs" by auto
  have dist: "distance g a b = (Inr (snd pair), g)"
    using assms(2,3,4) run f by (simp add: distance_def)
  from vals m have "case (b, snd pair) of (node, dist) \<Rightarrow>
              (reachable ?d a node \<longrightarrow> (\<exists>k. dist = int k \<and> shortest ?d a node k)) \<and>
              (\<not> reachable ?d a node \<longrightarrow> dist = - 1)"
    by (rule bspec)
  then have v: "(reachable ?d a b \<longrightarrow> (\<exists>k. snd pair = int k \<and> shortest ?d a b k)) \<and>
              (\<not> reachable ?d a b \<longrightarrow> snd pair = - 1)"
    by simp
  show ?thesis
    using p m dist v by (intro exI[of _ pairs] exI[of _ "snd pair"]) simp
qed

lemma distance_sym:
  assumes "graph_inv g" and "graph_contains g a" and "graph_contains g b"
  shows "\<exists>dist. distance g a b = (Inr dist, g) \<and> distance g b a = (Inr dist, g)"
proof (cases "a = b")
  case True
  then show ?thesis using assms by (simp add: distance_def)
next
  case False
  let ?d = "adjacency_dict g"
  have s: "symmetric ?d" using assms(1) by (simp add: graph_inv_def)
  from distance_spec[OF assms False] obtain x where
    x: "distance g a b = (Inr x, g)"
       "reachable ?d a b \<longrightarrow> (\<exists>k. x = int k \<and> shortest ?d a b k)"
       "\<not> reachable ?d a b \<longrightarrow> x = - 1" by blast
  from distance_spec[OF assms(1,3,2)] False obtain y where
    y: "distance g b a = (Inr y, g)"
       "reachable ?d b a \<longrightarrow> (\<exists>k. y = int k \<and> shortest ?d b a k)"
       "\<not> reachable ?d b a \<longrightarrow> y = - 1" by metis
  have "x = y"
  proof (cases "reachable ?d a b")
    case True
    then have "reachable ?d b a" using reachable_sym[OF s] by blast
    with True x(2) y(2) obtain j k where
      "x = int j" "shortest ?d a b j" "y = int k" "shortest ?d b a k" by blast
    then show ?thesis using shortest_sym[OF s] shortest_unique by metis
  next
    case False
    then have "\<not> reachable ?d b a" using reachable_sym[OF s] by blast
    with False x(3) y(3) show ?thesis by simp
  qed
  then show ?thesis using x(1) y(1) by simp
qed

subsection \<open>Single operations\<close>

lemma query_frame:
  assumes "graph_inv g" and "is_query op"
  shows "snd (run_operation g op) = g"
proof -
  have c: "closed (adjacency_dict g)" using assms(1) by (simp add: graph_inv_def symmetric_closed)
  show ?thesis
  proof (cases op)
    case (NeighborsOp n)
    show ?thesis
    proof (cases "graph_contains g n")
      case True
      then show ?thesis using NeighborsOp by (simp add: graph_getitem_key)
    next
      case False
      then show ?thesis using NeighborsOp by (simp add: graph_getitem_def)
    qed
  next
    case (BfsOp s)
    then show ?thesis using bfs_frame[OF c, of s] by (cases "bfs g s") simp
  next
    case (DistanceOp a b)
    then show ?thesis using distance_frame[OF c, of a b] by (cases "distance g a b") simp
  qed (use assms(2) in \<open>simp_all add: is_edge_in_graph_eq\<close>)
qed

lemma operation_errors:
  assumes "graph_inv g"
  shows "fst (run_operation g op) = Inl e \<longleftrightarrow>
           (e = ValueError \<and> missing_node g op) \<or>
           (e = StopIteration \<and> op = NextOp \<and> all_nodes g = [])"
proof (cases op)
  case (NeighborsOp n)
  show ?thesis
  proof (cases "graph_contains g n")
    case True
    then show ?thesis using NeighborsOp by (simp add: graph_getitem_key)
  next
    case False
    then show ?thesis using NeighborsOp by (auto simp: graph_getitem_def)
  qed
next
  case (BfsOp s)
  show ?thesis
  proof (cases "graph_contains g s")
    case True
    then obtain pairs where "fst (bfs g s) = Inr pairs" using bfs_key_returns by blast
    then show ?thesis using True BfsOp by (cases "bfs g s") simp
  next
    case False
    then show ?thesis using BfsOp by (auto simp: bfs_not_key)
  qed
next
  case (DistanceOp a b)
  show ?thesis
  proof (cases "graph_contains g a \<and> graph_contains g b")
    case True
    then obtain x where "distance g a b = (Inr x, g)" using distance_sym[OF assms] by blast
    then show ?thesis using True DistanceOp by simp
  next
    case False
    then have "distance g a b = (Inl ValueError, g)" by (auto simp: distance_def)
    then show ?thesis using False DistanceOp by auto
  qed
next
  case NextOp
  then show ?thesis by (auto simp: graph_next_def split: list.splits)
qed (simp_all add: is_edge_in_graph_eq)

subsection \<open>Iteration\<close>

declare iterate_from.simps [simp del]

lemma iterate_from_eq: "iterate_from g = (all_nodes g, g\<lparr>all_nodes := []\<rparr>)"
proof (induction "all_nodes g" arbitrary: g)
  case Nil
  then show ?case by (subst iterate_from.simps) (simp add: graph_next_def)
next
  case (Cons n ns)
  from Cons(2)[symmetric] have n: "graph_next g = (Inr n, g\<lparr>all_nodes := ns\<rparr>)"
    by (simp add: graph_next_def)
  have "iterate_from (g\<lparr>all_nodes := ns\<rparr>) = (ns, g\<lparr>all_nodes := []\<rparr>)"
    using Cons(1)[of "g\<lparr>all_nodes := ns\<rparr>"] by simp
  then show ?case using n Cons(2)[symmetric] by (subst iterate_from.simps) simp
qed

subsection \<open>The invariants hold as long as nothing iterates\<close>

lemma distinct_keys_dict_add:
  "distinct (map fst d) \<Longrightarrow> distinct (map fst (dict_add d k x))"
  by (simp add: dict_add_def distinct_update)

lemma node_order_ok_add_edge: "node_order_ok g \<Longrightarrow> node_order_ok (add_edge g e)"
  by (cases e) (simp add: node_order_ok_def add_edge_eq update_all_nodes_def distinct_keys_dict_add)

lemma node_order_ok_add_node: "node_order_ok g \<Longrightarrow> node_order_ok (add_node g n)"
  by (simp add: node_order_ok_def add_node_def update_all_nodes_def dict_setitem_def
      distinct_update)

lemma node_order_ok_foldl_add_edge:
  "node_order_ok g \<Longrightarrow> node_order_ok (foldl add_edge g es)"
  by (induction es arbitrary: g) (simp_all add: node_order_ok_add_edge)

lemma node_order_ok_graph_init: "node_order_ok (graph_init es)"
proof -
  have e: "node_order_ok empty_graph" by (simp add: node_order_ok_def empty_graph_def)
  have "node_order_ok (foldl add_edge empty_graph es)"
    using e by (rule node_order_ok_foldl_add_edge)
  then show ?thesis
    using e by (simp add: graph_init_def node_order_ok_def update_all_nodes_def)
qed

lemma graph_inv_intro:
  "symmetric (adjacency_dict g) \<Longrightarrow> node_order_ok g \<Longrightarrow> graph_inv g"
  by (simp add: graph_inv_def node_order_ok_def)

lemma graph_inv_graph_init: "graph_inv (graph_init es)"
  by (intro graph_inv_intro symmetric_graph_init node_order_ok_graph_init)

lemma reach_run_operation:
  assumes "symmetric (adjacency_dict g)" and "node_order_ok g" and "op \<noteq> NextOp"
  shows "symmetric (adjacency_dict (snd (run_operation g op))) \<and>
         node_order_ok (snd (run_operation g op))"
proof (cases "is_query op")
  case True
  then have "snd (run_operation g op) = g"
    using assms(1,2) by (intro query_frame graph_inv_intro)
  then show ?thesis using assms by simp
next
  case False
  then show ?thesis
    using assms
    by (cases op)
       (simp_all add: symmetric_add_edge symmetric_add_node node_order_ok_add_edge
          node_order_ok_add_node)
qed

lemma reach_run_operations:
  "symmetric (adjacency_dict g) \<Longrightarrow> node_order_ok g \<Longrightarrow> NextOp \<notin> set ops \<Longrightarrow>
   symmetric (adjacency_dict (run_operations g ops)) \<and> node_order_ok (run_operations g ops)"
proof (induction ops arbitrary: g)
  case Nil
  then show ?case by (simp add: run_operations_def)
next
  case (Cons op ops)
  have "op \<noteq> NextOp" "NextOp \<notin> set ops" using Cons.prems(3) by auto
  then show ?case
    using reach_run_operation[OF Cons.prems(1,2), of op] Cons.IH
    by (simp add: run_operations_def)
qed

lemma graph_inv_without_next:
  "NextOp \<notin> set ops \<Longrightarrow> graph_inv (run_operations (graph_init edges) ops)"
  using reach_run_operations[OF symmetric_graph_init node_order_ok_graph_init]
  by (simp add: graph_inv_intro)

section \<open>The claims\<close>

subsection \<open>C1: what bfs returns\<close>

text \<open>
  Claim C1. On a graph that satisfies the invariants of the data model (\<open>graph_inv\<close>:
  the adjacency is symmetric and \<open>all_nodes\<close> holds exactly the keys of the adjacency
  dict, each once) and for a start node in the graph, \<open>bfs\<close> returns normally a list
  of (node, distance) pairs with exactly one pair for every node of the graph other
  than the start node: no node twice, the start node never. The distance of a node
  reachable from the start is the number of edges of a shortest path to it; the
  distance of a node that is not reachable is \<open>-1\<close>.
\<close>

theorem bfs_correct:
  assumes "graph_inv g" and "graph_contains g start_node"
  shows "\<exists>pairs. fst (bfs g start_node) = Inr pairs \<and>
           distinct (map fst pairs) \<and>
           set (map fst pairs) = set (map fst (adjacency_dict g)) - {start_node} \<and>
           (\<forall>(node, dist) \<in> set pairs.
              (reachable (adjacency_dict g) start_node node \<longrightarrow>
                 (\<exists>k. dist = int k \<and> shortest (adjacency_dict g) start_node node k)) \<and>
              (\<not> reachable (adjacency_dict g) start_node node \<longrightarrow> dist = - 1))"
  using assms by (rule bfs_spec)

theorem bfs_correct_witness:
  "graph_inv two_components \<and> graph_contains two_components 1 \<and>
   fst (bfs two_components 1) = Inr [(2, 1), (3, 2), (4, - 1), (5, - 1)] \<and>
   shortest (adjacency_dict two_components) 1 3 2 \<and>
   \<not> reachable (adjacency_dict two_components) 1 4"
proof -
  have h1: "graph_inv two_components" by code_simp
  have h2: "graph_contains two_components 1" by code_simp
  have run: "fst (bfs two_components 1) = Inr [(2, 1), (3, 2), (4, - 1), (5, - 1)]"
    by code_simp
  from bfs_correct[OF h1 h2] obtain pairs where
    p: "fst (bfs two_components 1) = Inr pairs"
    and v: "\<forall>(node, dist) \<in> set pairs.
              (reachable (adjacency_dict two_components) 1 node \<longrightarrow>
                 (\<exists>k. dist = int k \<and> shortest (adjacency_dict two_components) 1 node k)) \<and>
              (\<not> reachable (adjacency_dict two_components) 1 node \<longrightarrow> dist = - 1)"
    by blast
  have pairs: "pairs = [(2, 1), (3, 2), (4, - 1), (5, - 1)]" using p run by simp
  have "shortest (adjacency_dict two_components) 1 3 2"
    using v unfolding pairs by fastforce
  moreover have "\<not> reachable (adjacency_dict two_components) 1 4"
    using v unfolding pairs by fastforce
  ultimately show ?thesis using h1 h2 run by blast
qed

subsection \<open>C2: iterating the graph\<close>

text \<open>
  Claim C2 asks that iterating a graph yields every node of \<open>all_nodes\<close> once, that a
  new iteration starts over, and that iterating does not destroy the stored node list.
  One iteration does yield \<open>all_nodes\<close> and ends (\<open>iterate_from_eq\<close>), but
  \<^verbatim>\<open>__next__\<close> pops the stored list: on the graph built from the edge \<open>(1, 2)\<close> the
  first iteration yields \<open>1\<close> and \<open>2\<close> and leaves \<open>all_nodes\<close> empty, and a second
  iteration yields nothing.
\<close>

theorem iteration_consumes_all_nodes:
  "iterate (graph_init [(1, 2)]) = ([1, 2], (graph_init [(1, 2)])\<lparr>all_nodes := []\<rparr>) \<and>
   all_nodes (graph_init [(1, 2)]) = [1, 2] \<and>
   fst (iterate (snd (iterate (graph_init [(1, 2)])))) = []"
  by code_simp

subsection \<open>C3: the node order and the keys\<close>

text \<open>
  Claim C3 asks that \<open>all_nodes\<close> holds exactly the keys of the adjacency dict after any
  sequence of public operations, iteration steps included. It does as long as no
  operation is an iteration step (\<open>graph_inv_without_next\<close>). One \<^verbatim>\<open>__next__\<close> on the
  graph built from the edge \<open>(1, 2)\<close> leaves \<open>all_nodes\<close> as \<open>[2]\<close>, while the keys
  are still \<open>1\<close> and \<open>2\<close>.
\<close>

theorem next_breaks_node_order:
  "all_nodes (run_operations (graph_init [(1, 2)]) [NextOp]) = [2] \<and>
   map fst (adjacency_dict (run_operations (graph_init [(1, 2)]) [NextOp])) = [1, 2]"
  by code_simp

subsection \<open>C4: the errors raised\<close>

text \<open>
  Claim C4 asks that the only exception is the one for a node that is not in the graph.
  On a graph that satisfies the invariants that is so, the end of an iteration apart
  (\<open>operation_errors\<close>). After three \<^verbatim>\<open>__next__\<close> calls on the graph built from the
  edges \<open>(1, 2)\<close> and \<open>(3, 4)\<close>, the nodes \<open>1\<close> and \<open>3\<close> are both in the graph and
  \<open>distance\<close> on them raises \<^verbatim>\<open>IndexError\<close>.
\<close>

theorem distance_index_error_after_iteration:
  "graph_contains (run_operations (graph_init [(1, 2), (3, 4)]) [NextOp, NextOp, NextOp]) 1 \<and>
   graph_contains (run_operations (graph_init [(1, 2), (3, 4)]) [NextOp, NextOp, NextOp]) 3 \<and>
   fst (run_operation (run_operations (graph_init [(1, 2), (3, 4)]) [NextOp, NextOp, NextOp])
          (DistanceOp 1 3)) = Inl IndexError"
  by code_simp

subsection \<open>C5: symmetry after construction and mutation\<close>

text \<open>
  Claim C5. After constructing a graph from any list of edges and calling \<open>add_edge\<close>
  and \<open>add_node\<close> any number of times in any order, for all nodes \<open>a\<close> and \<open>b\<close>:
  \<open>b\<close> is in the neighbour set of \<open>a\<close> exactly when \<open>a\<close> is in the neighbour set of
  \<open>b\<close>.
\<close>

theorem symmetry_after_mutations:
  "b \<in> set (neighbours (adjacency_dict (foldl apply_mutation (graph_init edges) ms)) a) \<longleftrightarrow>
   a \<in> set (neighbours (adjacency_dict (foldl apply_mutation (graph_init edges) ms)) b)"
proof -
  have "symmetric (adjacency_dict (foldl apply_mutation (graph_init edges) ms))"
    by (intro symmetric_foldl_apply_mutation symmetric_graph_init)
  then show ?thesis unfolding symmetric_iff edge_def by blast
qed

theorem symmetry_after_mutations_witness:
  "3 \<in> set (neighbours (adjacency_dict
      (foldl apply_mutation (graph_init [(1, 2)]) [AddNode 3, AddEdge 1 3, AddEdge 3 3])) 1) \<and>
   1 \<in> set (neighbours (adjacency_dict
      (foldl apply_mutation (graph_init [(1, 2)]) [AddNode 3, AddEdge 1 3, AddEdge 3 3])) 3)"
proof -
  have "3 \<in> set (neighbours (adjacency_dict
      (foldl apply_mutation (graph_init [(1, 2)]) [AddNode 3, AddEdge 1 3, AddEdge 3 3])) 1)"
    by code_simp
  then show ?thesis
    using symmetry_after_mutations[of 3 "[(1, 2)]" "[AddNode 3, AddEdge 1 3, AddEdge 3 3]" 1]
    by blast
qed

subsection \<open>C6: what distance returns\<close>

text \<open>
  Claim C6 asks that \<open>distance\<close> on two different nodes of any graph returns the distance
  paired with the second node in the result of \<open>bfs\<close> from the first, \<open>-1\<close> when it
  is not reachable. On a graph that satisfies the invariants it does (\<open>distance_spec\<close>).
  On the graph built from the edge \<open>(1, 2)\<close> and the added node \<open>3\<close> the distance
  from \<open>1\<close> to \<open>3\<close> is \<open>-1\<close>; after one iteration over that graph \<open>bfs\<close> from \<open>1\<close>
  has no pair for \<open>3\<close> any more, and \<open>distance\<close> raises \<^verbatim>\<open>IndexError\<close>.
\<close>

theorem distance_unreachable_after_iteration:
  "fst (distance (add_node (graph_init [(1, 2)]) 3) 1 3) = Inr (- 1) \<and>
   graph_contains (snd (iterate (add_node (graph_init [(1, 2)]) 3))) 1 \<and>
   graph_contains (snd (iterate (add_node (graph_init [(1, 2)]) 3))) 3 \<and>
   fst (bfs (snd (iterate (add_node (graph_init [(1, 2)]) 3))) 1) = Inr [(2, 1)] \<and>
   fst (distance (snd (iterate (add_node (graph_init [(1, 2)]) 3))) 1 3) = Inl IndexError"
  by code_simp

theorem distance_unreachable_after_iteration_witness:
  "fst (distance (snd (iterate (add_node (graph_init [(1, 2)]) 3))) 1 3) \<noteq>
   fst (distance (add_node (graph_init [(1, 2)]) 3) 1 3)"
  using distance_unreachable_after_iteration by simp

subsection \<open>C7: distance is symmetric\<close>

text \<open>
  Claim C7. On a graph that satisfies the invariants of the data model and for two
  nodes \<open>a\<close> and \<open>b\<close> of the graph, \<open>distance\<close> from \<open>a\<close> to \<open>b\<close> and \<open>distance\<close>
  from \<open>b\<close> to \<open>a\<close> both return, and return the same number.
\<close>

theorem distance_symmetric:
  assumes "graph_inv g" and "graph_contains g a" and "graph_contains g b"
  shows "\<exists>dist. fst (distance g a b) = Inr dist \<and> fst (distance g b a) = Inr dist"
  using distance_sym[OF assms] by auto

theorem distance_symmetric_witness:
  "graph_inv figure_1 \<and> graph_contains figure_1 6 \<and> graph_contains figure_1 1 \<and>
   fst (distance figure_1 6 1) = Inr 3 \<and> fst (distance figure_1 1 6) = Inr 3"
proof -
  have h1: "graph_inv figure_1" by code_simp
  have h2: "graph_contains figure_1 6" by code_simp
  have h3: "graph_contains figure_1 1" by code_simp
  have v: "fst (distance figure_1 6 1) = Inr 3" by code_simp
  show ?thesis using distance_symmetric[OF h1 h2 h3] h1 h2 h3 v by auto
qed

subsection \<open>C8: adding twice\<close>

text \<open>
  Claim C8. In every state of the graph, adding an edge twice gives the graph that
  adding it once gives, and so does adding a node twice: the two graphs are equal by
  \<^verbatim>\<open>__eq__\<close>, and they are the same state altogether.
\<close>

theorem add_twice_idempotent:
  "add_edge (add_edge g (u, v)) (u, v) = add_edge g (u, v) \<and>
   graph_eq (add_edge (add_edge g (u, v)) (u, v)) (add_edge g (u, v)) \<and>
   add_node (add_node g n) n = add_node g n \<and>
   graph_eq (add_node (add_node g n) n) (add_node g n)"
  by (simp add: add_edge_twice add_node_twice graph_eq_def dict_eq_refl)

theorem add_twice_idempotent_witness:
  "graph_eq (add_edge (add_edge figure_1 (7, 8)) (7, 8)) (add_edge figure_1 (7, 8)) \<and>
   graph_eq (add_edge figure_1 (4, 3)) figure_1 \<and>
   \<not> graph_eq (add_edge figure_1 (7, 8)) figure_1 \<and>
   graph_eq (add_node (add_node figure_1 9) 9) (add_node figure_1 9)"
proof -
  have "graph_eq (add_edge figure_1 (4, 3)) figure_1" by code_simp
  moreover have "\<not> graph_eq (add_edge figure_1 (7, 8)) figure_1" by code_simp
  ultimately show ?thesis
    using add_twice_idempotent[of figure_1 7 8 9] by blast
qed

subsection \<open>C9: construction from a list of edges\<close>

text \<open>
  Claim C9. In the graph constructed from a list of edges, for every edge \<open>(u, v)\<close> of
  the list both \<open>u\<close> and \<open>v\<close> are in the graph, \<open>v\<close> is among the neighbours returned
  for \<open>u\<close>, and \<open>u\<close> is among the neighbours returned for \<open>v\<close>. For the empty list
  there is nothing to show.
\<close>

theorem graph_init_edges:
  assumes "(u, v) \<in> set edges"
  shows "graph_contains (graph_init edges) u \<and> graph_contains (graph_init edges) v \<and>
         (\<exists>s. graph_getitem (graph_init edges) u = (Inr s, graph_init edges) \<and> v \<in> set s) \<and>
         (\<exists>s. graph_getitem (graph_init edges) v = (Inr s, graph_init edges) \<and> u \<in> set s)"
proof -
  let ?g = "graph_init edges"
  have ne: "edges \<noteq> []" using assms by auto
  have "symmetric (adjacency_dict empty_graph)" by (simp add: empty_graph_def symmetric_def)
  from edge_foldl_add_edge[OF this assms]
  have e: "edge (adjacency_dict ?g) u v" "edge (adjacency_dict ?g) v u"
    using ne by (simp_all add: graph_init_def update_all_nodes_def)
  then have c: "graph_contains ?g u" "graph_contains ?g v"
    by (simp_all add: graph_contains_def edge_key)
  show ?thesis
    using c e by (simp add: graph_getitem_key edge_def)
qed

theorem graph_init_edges_witness:
  "(4 :: int, 3 :: int) \<in> set [(6, 4), (4, 3), (4, 5), (3, 2), (5, 2), (5, 1), (1, 2)] \<and>
   graph_contains figure_1 4 \<and> graph_contains figure_1 3 \<and>
   graph_getitem figure_1 4 = (Inr [6, 3, 5], figure_1) \<and>
   graph_getitem figure_1 3 = (Inr [4, 2], figure_1)"
proof -
  have h: "(4 :: int, 3 :: int) \<in> set [(6, 4), (4, 3), (4, 5), (3, 2), (5, 2), (5, 1), (1, 2)]"
    by simp
  have "graph_getitem figure_1 4 = (Inr [6, 3, 5], figure_1)" by code_simp
  moreover have "graph_getitem figure_1 3 = (Inr [4, 2], figure_1)" by code_simp
  ultimately show ?thesis
    using graph_init_edges[OF h] h unfolding figure_1_def[symmetric] by blast
qed

subsection \<open>C10: queries change nothing\<close>

text \<open>
  Claim C10. On a graph that satisfies the invariants of the data model, each of the
  queries (membership, edge test, neighbours, \<open>bfs\<close>, \<open>distance\<close>, equality) leaves
  the graph as it was, adjacency dict and node list, whether it returns or raises. In
  particular no read through the defaultdict in \<open>bfs\<close> inserts a key.
\<close>

theorem queries_leave_graph_unchanged:
  assumes "graph_inv g" and "is_query op"
  shows "snd (run_operation g op) = g"
  using assms by (rule query_frame)

theorem queries_leave_graph_unchanged_witness:
  "graph_inv two_components \<and> is_query (BfsOp 1) \<and> is_query (DistanceOp 7 1) \<and>
   run_operation two_components (BfsOp 1) =
     (Inr (PairsVal [(2, 1), (3, 2), (4, - 1), (5, - 1)]), two_components) \<and>
   run_operation two_components (DistanceOp 7 1) = (Inl ValueError, two_components)"
proof -
  have h: "graph_inv two_components" by code_simp
  have q1: "is_query (BfsOp 1)" and q2: "is_query (DistanceOp 7 1)" by simp_all
  have r1: "fst (run_operation two_components (BfsOp 1)) =
      Inr (PairsVal [(2, 1), (3, 2), (4, - 1), (5, - 1)])" by code_simp
  have r2: "fst (run_operation two_components (DistanceOp 7 1)) = Inl ValueError"
    by code_simp
  show ?thesis
    using queries_leave_graph_unchanged[OF h q1] queries_leave_graph_unchanged[OF h q2]
      h q1 q2 r1 r2
    by (simp add: prod_eq_iff)
qed

end
